theory Spec2Isabelle
  imports Main
begin

section \<open>Go strings, runes and the regular expression engine\<close>

text \<open>
  A Go string is a sequence of bytes; \<open>string\<close> (a list of 8-bit characters) is that
  sequence. The characters the pattern of \<open>Strip\<close> mentions:
\<close>

definition nl :: char where "nl = CHR 0x0A"
definition tab :: char where "tab = CHR 0x09"
definition ff :: char where "ff = CHR 0x0C"
definition cr :: char where "cr = CHR 0x0D"
definition sp :: char where "sp = CHR 0x20"

text \<open>
  The fragment of Go's regular expression syntax that the pattern
  \<^verbatim>\<open>(?m)\n?^\s*\<close> is built from: a literal byte, a character class, the
  multi-line \<^verbatim>\<open>^\<close>, greedy \<^verbatim>\<open>?\<close> and \<^verbatim>\<open>*\<close>, and concatenation.
\<close>

datatype regex =
    Lit char
  | Class "char list"
  | BeginLine
  | Quest regex
  | Star regex
  | Cat regex regex

text \<open>
  \<open>ends r s i\<close> lists the positions at which a match of \<open>r\<close> that starts at byte
  \<open>i\<close> of \<open>s\<close> can end, in the order of preference of Go's leftmost-first
  (Perl-like) matching: a greedy operator prefers to take its operand, and a
  concatenation backtracks into its left part last. The multi-line \<^verbatim>\<open>^\<close>
  holds at the start of the text and right after a newline. The matcher reads bytes
  where Go's reads runes; the characters of the pattern are ASCII, and a byte of a
  longer encoding is none of them.
\<close>

function ends :: "regex \<Rightarrow> string \<Rightarrow> nat \<Rightarrow> nat list" where
  "ends (Lit c) s i = (if i < length s \<and> s ! i = c then [Suc i] else [])"
| "ends (Class cs) s i = (if i < length s \<and> s ! i \<in> set cs then [Suc i] else [])"
| "ends BeginLine s i = (if i = 0 \<or> (i \<le> length s \<and> s ! (i - 1) = nl) then [i] else [])"
| "ends (Quest r) s i = ends r s i @ [i]"
| "ends (Star r) s i =
     concat (map (\<lambda>j. if i < j \<and> j \<le> length s then ends (Star r) s j else [])
                 (ends r s i)) @ [i]"
| "ends (Cat r1 r2) s i = concat (map (\<lambda>j. ends r2 s j) (ends r1 s i))"
  by pat_completeness auto
termination
  by (relation "inv_image (less_than <*lex*> less_than) (\<lambda>(r, s, i). (size r, Suc (length s) - i))")
     auto

text \<open>
  The equation for \<open>Star\<close> mentions \<open>Star\<close> again on its right-hand side, so it is
  unfolded by hand where it is needed.
\<close>

declare ends.simps(5) [simp del]

text \<open>
  \<open>doExecute re s pos\<close>: the leftmost-first match of \<open>re\<close> in \<open>s\<close> that starts at or
  after \<open>pos\<close>, as the pair of its start and end offsets (Go's \<open>[]int{a[0], a[1]}\<close>),
  or \<open>None\<close> when there is none.
\<close>

definition doExecute :: "regex \<Rightarrow> string \<Rightarrow> nat \<Rightarrow> (nat \<times> nat) option" where
  "doExecute re s pos =
     (case find (\<lambda>i. ends re s i \<noteq> []) [pos ..< Suc (length s)] of
        None \<Rightarrow> None
      | Some i \<Rightarrow> Some (i, hd (ends re s i)))"

text \<open>Go's \<^verbatim>\<open>\s\<close> is the class \<^verbatim>\<open>[\t\n\f\r ]\<close>.\<close>

definition perl_space :: "char list" where
  "perl_space = [tab, nl, ff, cr, sp]"

definition reInsignificantWhitespace :: regex where
  "reInsignificantWhitespace = Cat (Quest (Lit nl)) (Cat BeginLine (Star (Class perl_space)))"

subsection \<open>UTF-8 decoding and the replacement loop\<close>

text \<open>
  The size that \<open>utf8.DecodeRuneInString\<close> reports for the first rune of a string:
  0 for the empty string, 1 for an ASCII byte and for an invalid or truncated
  encoding, and the length of the encoding otherwise. The bounds on the second
  byte are those of the table \<open>acceptRanges\<close>.
\<close>

definition byte_between :: "nat \<Rightarrow> nat \<Rightarrow> char \<Rightarrow> bool" where
  "byte_between lo hi c = (lo \<le> of_char c \<and> (of_char c :: nat) \<le> hi)"

fun DecodeRuneInString_size :: "string \<Rightarrow> nat" where
  "DecodeRuneInString_size [] = 0"
| "DecodeRuneInString_size (s0 # t) =
     (let x = (of_char s0 :: nat) in
      if x < 0xC2 \<or> 0xF4 < x then 1
      else
        let sz = (if x < 0xE0 then 2 else if x < 0xF0 then 3 else (4::nat));
            lo = (if x = 0xE0 then 0xA0 else if x = 0xF0 then 0x90 else (0x80::nat));
            hi = (if x = 0xED then 0x9F else if x = 0xF4 then 0x8F else (0xBF::nat))
        in if length (s0 # t) < sz then 1
           else if \<not> byte_between lo hi (t ! 0) then 1
           else if sz \<le> 2 then 2
           else if \<not> byte_between 0x80 0xBF (t ! 1) then 1
           else if sz \<le> 3 then 3
           else if \<not> byte_between 0x80 0xBF (t ! 2) then 1
           else 4)"

text \<open>Go's slice expression \<open>s[lo:hi]\<close>, for \<open>lo \<le> hi \<le> len(s)\<close>.\<close>

definition slice :: "string \<Rightarrow> nat \<Rightarrow> nat \<Rightarrow> string" where
  "slice s lo hi = take (hi - lo) (drop lo s)"

text \<open>
  The loop of \<open>Regexp.replaceAll\<close>, which \<open>ReplaceAllString\<close> runs from
  \<open>lastMatchEnd = 0\<close>, \<open>searchPos = 0\<close> and an empty buffer. The replacement
  \<open>repl\<close> is a literal (the source passes the empty string, which has no
  \<open>$\<close> to expand). That the loop terminates is proved below, from the bounds on
  the matches.
\<close>

function replaceAll_loop :: "regex \<Rightarrow> string \<Rightarrow> string \<Rightarrow> nat \<Rightarrow> nat \<Rightarrow> string \<Rightarrow> string" where
  "replaceAll_loop re src repl lastMatchEnd searchPos buf =
     (if searchPos \<le> length src then
        (case doExecute re src searchPos of
           None \<Rightarrow> buf @ drop lastMatchEnd src
         | Some (a0, a1) \<Rightarrow>
             let buf1 = buf @ slice src lastMatchEnd a0;
                 buf2 = (if a1 > lastMatchEnd \<or> a0 = 0 then buf1 @ repl else buf1);
                 width = DecodeRuneInString_size (drop searchPos src);
                 searchPos' = (if searchPos + width > a1 then searchPos + width
                               else if searchPos + 1 > a1 then searchPos + 1
                               else a1)
             in replaceAll_loop re src repl a1 searchPos' buf2)
      else buf @ drop lastMatchEnd src)"
  by pat_completeness auto

definition ReplaceAllString :: "regex \<Rightarrow> string \<Rightarrow> string \<Rightarrow> string" where
  "ReplaceAllString re src repl = replaceAll_loop re src repl 0 0 []"

definition Strip :: "string \<Rightarrow> string" where
  "Strip text = ReplaceAllString reInsignificantWhitespace text []"

text \<open>
  Two classes of whitespace: the class \<^verbatim>\<open>\s\<close> of the pattern, and horizontal
  whitespace (space and tab).
\<close>

definition is_space :: "char \<Rightarrow> bool" where
  "is_space c = (c \<in> set perl_space)"

definition is_hspace :: "char \<Rightarrow> bool" where
  "is_hspace c = (c = sp \<or> c = tab)"

text \<open>
  \<open>strip_lines P\<close> removes every newline together with the run of \<open>P\<close>-characters
  that follows it and keeps every other character.
\<close>

function strip_lines :: "(char \<Rightarrow> bool) \<Rightarrow> string \<Rightarrow> string" where
  "strip_lines P [] = []"
| "strip_lines P (c # t) = (if c = nl then strip_lines P (dropWhile P t) else c # strip_lines P t)"
  by pat_completeness auto
termination
  by (relation "measure (\<lambda>(P, s). length s)") (auto simp: length_dropWhile_le le_imp_less_Suc)

text \<open>
  The rule as the specification words it: the leading whitespace of the text goes, and
  so does every newline with the horizontal whitespace (spaces and tabs) after it.
\<close>

definition Strip_spec :: "string \<Rightarrow> string" where
  "Strip_spec text = strip_lines is_hspace (dropWhile is_space text)"

text \<open>
  The same rule with the class \<^verbatim>\<open>\s\<close> of the pattern after the newline: spaces,
  tabs, carriage returns, form feeds and further newlines.
\<close>

definition Strip_lines :: "string \<Rightarrow> string" where
  "Strip_lines text = strip_lines is_space (dropWhile is_space text)"

definition remove_whitespace :: "string \<Rightarrow> string" where
  "remove_whitespace s = filter (\<lambda>c. \<not> is_space c) s"

section \<open>The \<open>last\<close> template function\<close>

text \<open>
  The values a template can be handed, by their \<open>reflect.Kind\<close>. \<open>VNil\<close> is the nil
  interface, whose \<open>reflect.Value\<close> is the invalid zero value. A map is its list of
  entries and a channel the list of the elements queued in it. \<open>VPtr v\<close> is a pointer
  to \<open>v\<close>; \<open>VNilPtr\<close> is a nil pointer, and carries the length of the array type it
  points to when its type is a pointer to an array.
\<close>

datatype gvalue =
    VNil
  | VBool bool
  | VInt int
  | VString string
  | VArray "gvalue list"
  | VSlice "gvalue list"
  | VMap "(gvalue \<times> gvalue) list"
  | VChan "gvalue list"
  | VStruct "(string \<times> gvalue) list"
  | VPtr gvalue
  | VNilPtr "nat option"

text \<open>A call either returns or panics.\<close>

datatype ('p, 'a) outcome = Panic 'p | Return 'a

text \<open>
  The panic values of \<open>reflect.Value.Len\<close>: a \<open>*ValueError\<close> with the method and the
  kind it was called on, and a plain message for a pointer to something that is not an
  array.
\<close>

datatype reflect_panic = ValueError string string | PanicString string

fun kind :: "gvalue \<Rightarrow> string" where
  "kind VNil = ''invalid''"
| "kind (VBool _) = ''bool''"
| "kind (VInt _) = ''int''"
| "kind (VString _) = ''string''"
| "kind (VArray _) = ''array''"
| "kind (VSlice _) = ''slice''"
| "kind (VMap _) = ''map''"
| "kind (VChan _) = ''chan''"
| "kind (VStruct _) = ''struct''"
| "kind (VPtr _) = ''ptr''"
| "kind (VNilPtr _) = ''ptr''"

text \<open>
  \<open>reflect.ValueOf(a).Len()\<close>: the length of an array, channel, map, slice or string,
  and of the array type behind a pointer to an array (the length is read from the type,
  so the pointer may be nil); a panic on a pointer to anything else and on every other
  kind.
\<close>

fun reflect_Len :: "gvalue \<Rightarrow> (reflect_panic, nat) outcome" where
  "reflect_Len (VArray xs) = Return (length xs)"
| "reflect_Len (VChan xs) = Return (length xs)"
| "reflect_Len (VMap kvs) = Return (length (remdups (map fst kvs)))"
| "reflect_Len (VSlice xs) = Return (length xs)"
| "reflect_Len (VString s) = Return (length s)"
| "reflect_Len (VPtr (VArray xs)) = Return (length xs)"
| "reflect_Len (VNilPtr (Some n)) = Return n"
| "reflect_Len (VPtr v) =
     Panic (PanicString ''reflect: call of reflect.Value.Len on ptr to non-array Value'')"
| "reflect_Len (VNilPtr None) =
     Panic (PanicString ''reflect: call of reflect.Value.Len on ptr to non-array Value'')"
| "reflect_Len v = Panic (ValueError ''reflect.Value.Len'' (kind v))"

text \<open>
  The values that have a length, as the documentation of \<open>Len\<close> lists them: ``it panics
  if v's Kind is not Array, Chan, Map, Slice, String, or pointer to Array''.
\<close>

fun has_length :: "gvalue \<Rightarrow> bool" where
  "has_length (VArray _) = True"
| "has_length (VChan _) = True"
| "has_length (VMap _) = True"
| "has_length (VSlice _) = True"
| "has_length (VString _) = True"
| "has_length (VPtr (VArray _)) = True"
| "has_length (VNilPtr (Some _)) = True"
| "has_length _ = False"

text \<open>
  The function registered as \<open>last\<close>: \<open>x == reflect.ValueOf(a).Len()-1\<close>. A length is
  never negative, so the subtraction cannot overflow and the integers are modelled
  unbounded.
\<close>

definition last_func :: "int \<Rightarrow> gvalue \<Rightarrow> (reflect_panic, bool) outcome" where
  "last_func x a =
     (case reflect_Len a of
        Panic p \<Rightarrow> Panic p
      | Return n \<Rightarrow> Return (x = int n - 1))"

type_synonym FuncMap = "string \<rightharpoonup> (int \<Rightarrow> gvalue \<Rightarrow> (reflect_panic, bool) outcome)"

definition Last :: FuncMap where
  "Last = [''last'' \<mapsto> last_func]"

section \<open>The template engine, the file system and the helpers around them\<close>

text \<open>
  Package \<open>text/template\<close> is a collaborator, not part of this repository, so the
  engine is a parameter. A \<open>*template.Template\<close> is a name and a pointer to the set of
  templates it is associated with; \<open>'c\<close> is the state of such a set. Parsing a text
  into the template of a given name returns an error or not and leaves the set in a
  new state; executing the template of a given name on a value makes a sequence of
  writes to the output and returns an error or not.
\<close>

record 'c template =
  tname :: string
  common :: 'c

record ('c, 'e) engine =
  new_common :: 'c
  add_funcs :: "'c \<Rightarrow> FuncMap \<Rightarrow> 'c"
  parse :: "'c \<Rightarrow> string \<Rightarrow> string \<Rightarrow> 'e option \<times> 'c"
  execute :: "'c \<Rightarrow> string \<Rightarrow> gvalue \<Rightarrow> string list \<times> 'e option"

text \<open>\<open>template.New(name)\<close>: a template of that name with a fresh set.\<close>

definition template_New :: "('c, 'e) engine \<Rightarrow> string \<Rightarrow> 'c template" where
  "template_New eng name = \<lparr>tname = name, common = new_common eng\<rparr>"

text \<open>\<open>t.New(name)\<close>: a template of that name that shares the set of \<open>t\<close>.\<close>

definition template_New_in :: "'c template \<Rightarrow> string \<Rightarrow> 'c template" where
  "template_New_in t name = \<lparr>tname = name, common = common t\<rparr>"

definition template_Name :: "'c template \<Rightarrow> string" where
  "template_Name t = tname t"

definition template_Funcs :: "('c, 'e) engine \<Rightarrow> 'c template \<Rightarrow> FuncMap \<Rightarrow> 'c template" where
  "template_Funcs eng t funcs = t\<lparr>common := add_funcs eng (common t) funcs\<rparr>"

text \<open>
  \<open>t.Parse(text)\<close>: the error, and \<open>t\<close> with its set in the state the call left it in.
\<close>

definition template_Parse ::
  "('c, 'e) engine \<Rightarrow> 'c template \<Rightarrow> string \<Rightarrow> 'e option \<times> 'c template" where
  "template_Parse eng t text =
     (case parse eng (common t) (tname t) text of
        (err, c) \<Rightarrow> (err, t\<lparr>common := c\<rparr>))"

text \<open>A \<open>bytes.Buffer\<close> is its contents; a write appends and cannot fail.\<close>

definition Buffer_Write :: "string \<Rightarrow> string \<Rightarrow> string" where
  "Buffer_Write buf p = buf @ p"

definition Buffer_String :: "string \<Rightarrow> string" where
  "Buffer_String buf = buf"

text \<open>\<open>t.Execute(buf, v)\<close> with a buffer as the writer: the buffer after, and the error.\<close>

definition template_Execute ::
  "('c, 'e) engine \<Rightarrow> 'c template \<Rightarrow> string \<Rightarrow> gvalue \<Rightarrow> string \<times> 'e option" where
  "template_Execute eng t buf v =
     (case execute eng (common t) (tname t) v of
        (writes, err) \<Rightarrow> (foldl Buffer_Write buf writes, err))"

definition ExecuteToString ::
  "('c, 'e) engine \<Rightarrow> 'c template \<Rightarrow> gvalue \<Rightarrow> string \<times> 'e option" where
  "ExecuteToString eng tpl v =
     (let buf = [] in
      case template_Execute eng tpl buf v of
        (buf', err) \<Rightarrow> (Buffer_String buf', err))"

subsection \<open>The variant with \<open>SparseTemplate\<close>\<close>

text \<open>\<open>type Template struct { *template.Template }\<close>\<close>

datatype 'c Template = Template (embedded: "'c template")

text \<open>
  \<open>template.Must\<close> panics with the error of a failed parse. The name handed to
  \<open>template.New\<close> is the literal \<open>"comment"\<close>.
\<close>

definition SparseTemplate ::
  "('c, 'e) engine \<Rightarrow> string \<Rightarrow> string \<Rightarrow> ('e, 'c Template) outcome" where
  "SparseTemplate eng name text =
     (let stripped = ReplaceAllString reInsignificantWhitespace text [];
          funcs = [''last'' \<mapsto> last_func]
      in case template_Parse eng (template_Funcs eng (template_New eng ''comment'') funcs) stripped of
           (Some err, _) \<Rightarrow> Panic err
         | (None, t) \<Rightarrow> Return (Template t))"

definition Template_Execute ::
  "('c, 'e) engine \<Rightarrow> 'c Template \<Rightarrow> gvalue \<Rightarrow> ('e, string \<times> 'e option) outcome" where
  "Template_Execute eng t v =
     (let buf = [] in
      case template_Execute eng (embedded t) buf v of
        (buf', err) \<Rightarrow>
          (case err of
             Some e \<Rightarrow> Panic e
           | None \<Rightarrow> Return (Buffer_String buf', err)))"

subsection \<open>\<open>ParseGlob\<close>\<close>

text \<open>
  The file system is a parameter too: what \<open>filepath.Glob\<close> answers for a pattern
  (the matching file names, or the error of a malformed pattern) and what
  \<open>ioutil.ReadFile\<close> answers for a file name.
\<close>

record 'e filesystem =
  Glob :: "string \<Rightarrow> 'e + string list"
  ReadFile :: "string \<Rightarrow> 'e + string"

text \<open>
  The errors \<open>ParseGlob\<close> returns: the one it makes itself with \<open>fmt.Errorf\<close> (the
  format and its argument), and those of its collaborators, returned as they are.
\<close>

datatype 'e error = Errorf string string | Err 'e

text \<open>\<open>filepath.Base\<close> with \<open>/\<close> as the separator.\<close>

definition Base :: "string \<Rightarrow> string" where
  "Base path =
     (if path = [] then ''.''
      else
        let stripped = rev (dropWhile (\<lambda>c. c = CHR ''/'') (rev path));
            elem = rev (takeWhile (\<lambda>c. c \<noteq> CHR ''/'') (rev stripped))
        in if elem = [] then ''/'' else elem)"

text \<open>
  The body of the loop over the file names. \<open>tpl\<close> is the variable of that name:
  \<open>None\<close> while it is nil, and otherwise the template it points to in its current
  state. \<open>current_tpl\<close> is \<open>tpl\<close> itself or a new template in the same set, so what
  \<open>Parse\<close> does to the set is seen through \<open>tpl\<close>. The result is the error of this
  file, if any, and \<open>tpl\<close> after the iteration.
\<close>

definition ParseGlob_file ::
  "('c, 'e) engine \<Rightarrow> 'e filesystem \<Rightarrow> 'c template option \<Rightarrow> string \<Rightarrow>
     'e error option \<times> 'c template option" where
  "ParseGlob_file eng fs tpl filename =
     (case ReadFile fs filename of
        Inl err \<Rightarrow> (Some (Err err), tpl)
      | Inr b \<Rightarrow>
          let s = Strip b;
              name = Base filename;
              tpl1 = (case tpl of None \<Rightarrow> template_New eng name | Some t \<Rightarrow> t);
              current_tpl = (if name = template_Name tpl1 then tpl1
                             else template_New_in tpl1 name)
          in case template_Parse eng current_tpl s of
               (err, parsed) \<Rightarrow> (map_option Err err, Some (tpl1\<lparr>common := common parsed\<rparr>)))"

fun ParseGlob_loop ::
  "('c, 'e) engine \<Rightarrow> 'e filesystem \<Rightarrow> 'c template option \<Rightarrow> string list \<Rightarrow>
     'e error option \<times> 'c template option" where
  "ParseGlob_loop eng fs tpl [] = (None, tpl)"
| "ParseGlob_loop eng fs tpl (filename # filenames) =
     (case ParseGlob_file eng fs tpl filename of
        (Some err, tpl') \<Rightarrow> (Some err, tpl')
      | (None, tpl') \<Rightarrow> ParseGlob_loop eng fs tpl' filenames)"

text \<open>
  \<open>ParseGlob\<close> returns a template and an error. The model returns with them the
  state in which the call leaves \<open>tpl\<close>: for a caller who passed a template, that is
  the caller's own template set after the call.
\<close>

definition ParseGlob ::
  "('c, 'e) engine \<Rightarrow> 'e filesystem \<Rightarrow> 'c template option \<Rightarrow> string \<Rightarrow>
     ('c template option \<times> 'e error option) \<times> 'c template option" where
  "ParseGlob eng fs tpl pattern =
     (case Glob fs pattern of
        Inl err \<Rightarrow> ((None, Some (Err err)), tpl)
      | Inr filenames \<Rightarrow>
          if length filenames = 0
          then ((None, Some (Errorf ''template: pattern matches no files: %#q'' pattern)), tpl)
          else
            (case ParseGlob_loop eng fs tpl filenames of
               (Some err, tpl') \<Rightarrow> ((None, Some err), tpl')
             | (None, tpl') \<Rightarrow> ((tpl', None), tpl')))"

text \<open>
  A matched file fails when it cannot be read, or when its stripped content fails to
  parse into the template set as it stands.
\<close>

definition file_fails ::
  "('c, 'e) engine \<Rightarrow> 'e filesystem \<Rightarrow> 'c template option \<Rightarrow> string \<Rightarrow> bool" where
  "file_fails eng fs tpl filename =
     (case ReadFile fs filename of
        Inl err \<Rightarrow> True
      | Inr b \<Rightarrow>
          fst (parse eng (case tpl of None \<Rightarrow> new_common eng | Some t \<Rightarrow> common t)
                 (Base filename) (Strip b)) \<noteq> None)"

subsection \<open>An engine and a file system for the examples\<close>

text \<open>
  A small engine, whose template set is the list of the texts parsed into it, and a
  file system with one readable file, to run the helpers on.
\<close>

definition toy_engine :: "((string \<times> string) list, string) engine" where
  "toy_engine =
     \<lparr>new_common = [],
      add_funcs = (\<lambda>c funcs. c),
      parse = (\<lambda>c name text.
                 if text = ''{{'' then (Some ''unclosed action'', c)
                 else (None, c @ [(name, text)])),
      execute = (\<lambda>c name v.
                 case v of
                   VNil \<Rightarrow> ([''Hello, ''], Some ''nil data'')
                 | _ \<Rightarrow> ([''Hello, '', ''world''], None))\<rparr>"

definition toy_fs :: "string filesystem" where
  "toy_fs =
     \<lparr>Glob = (\<lambda>pattern.
                if pattern = ''['' then Inl ''syntax error in pattern''
                else if pattern = ''t/*.tpl'' then Inr [''t/a.tpl'', ''t/b.tpl'']
                else if pattern = ''t/[0a].tpl'' then Inr [''t/0.tpl'', ''t/a.tpl'']
                else Inr []),
      ReadFile = (\<lambda>filename.
                if filename = ''t/a.tpl'' then Inr ('' x'' @ [nl] @ '' y'')
                else if filename = ''t/0.tpl'' then Inl ''permission denied''
                else Inl ''no such file'')\<rparr>"

text \<open>
  An engine whose template set also records the names of the functions registered
  with it.
\<close>

definition names_engine :: "(string list \<times> (string \<times> string) list, string) engine" where
  "names_engine =
     \<lparr>new_common = ([], []),
      add_funcs = (\<lambda>c funcs.
                 case funcs ''last'' of
                   None \<Rightarrow> c
                 | Some f \<Rightarrow> (fst c @ [''last''], snd c)),
      parse = (\<lambda>c name text. (None, (fst c, snd c @ [(name, text)]))),
      execute = (\<lambda>c name v. ([], None))\<rparr>"

section \<open>What \<open>Strip\<close> computes\<close>

subsection \<open>The replacement loop terminates\<close>

text \<open>
  A match never ends before it starts, and the search never finds a match before the
  position it starts from; so \<open>searchPos\<close> grows in every iteration of the loop.
\<close>

lemma ends_Star_mem:
  "j \<in> set (ends (Star r) s i) \<Longrightarrow>
   j = i \<or> (\<exists>k \<in> set (ends r s i). i < k \<and> k \<le> length s \<and> j \<in> set (ends (Star r) s k))"
  by (subst (asm) ends.simps(5)) (auto split: if_splits)

lemma ends_ge: "j \<in> set (ends r s i) \<Longrightarrow> i \<le> j"
proof (induction r s i arbitrary: j rule: ends.induct)
  case (1 c s i)
  then show ?case by (simp split: if_splits)
next
  case (2 cs s i)
  then show ?case by (simp split: if_splits)
next
  case (3 s i)
  then show ?case by (simp split: if_splits)
next
  case (4 r s i)
  then show ?case by auto
next
  case (5 r s i)
  from ends_Star_mem[OF "5.prems"] show ?case
  proof
    assume "j = i" then show ?thesis by simp
  next
    assume "\<exists>k \<in> set (ends r s i). i < k \<and> k \<le> length s \<and> j \<in> set (ends (Star r) s k)"
    then obtain k where k: "k \<in> set (ends r s i)" "i < k" "k \<le> length s" "j \<in> set (ends (Star r) s k)"
      by blast
    from "5.IH"(2)[OF k(1) _ k(4)] k(2,3) show ?thesis by simp
  qed
next
  case (6 r1 r2 s i)
  from "6.prems" obtain k where k: "k \<in> set (ends r1 s i)" "j \<in> set (ends r2 s k)"
    by auto
  from "6.IH"(1)[OF k(1)] "6.IH"(2)[OF k(1) k(2)] show ?case by simp
qed

lemma ends_le: "i \<le> length s \<Longrightarrow> j \<in> set (ends r s i) \<Longrightarrow> j \<le> length s"
proof (induction r s i arbitrary: j rule: ends.induct)
  case (1 c s i)
  then show ?case by (simp split: if_splits)
next
  case (2 cs s i)
  then show ?case by (simp split: if_splits)
next
  case (3 s i)
  then show ?case by (simp split: if_splits)
next
  case (4 r s i)
  then show ?case by auto
next
  case (5 r s i)
  from ends_Star_mem[OF "5.prems"(2)] show ?case
  proof
    assume "j = i" then show ?thesis using "5.prems"(1) by simp
  next
    assume "\<exists>k \<in> set (ends r s i). i < k \<and> k \<le> length s \<and> j \<in> set (ends (Star r) s k)"
    then obtain k where k: "k \<in> set (ends r s i)" "i < k" "k \<le> length s" "j \<in> set (ends (Star r) s k)"
      by blast
    from "5.IH"(2)[OF k(1) _ k(3) k(4)] k(2,3) show ?thesis by simp
  qed
next
  case (6 r1 r2 s i)
  from "6.prems" obtain k where k: "k \<in> set (ends r1 s i)" "j \<in> set (ends r2 s k)"
    by auto
  from "6.IH"(1)[OF "6.prems"(1) k(1)] have "k \<le> length s" .
  from "6.IH"(2)[OF k(1) this k(2)] show ?case .
qed

lemma find_in_set: "find P xs = Some x \<Longrightarrow> x \<in> set xs"
  by (induction xs) (auto split: if_splits)

lemma find_holds: "find P xs = Some x \<Longrightarrow> P x"
  by (induction xs) (auto split: if_splits)

lemma doExecute_Some:
  assumes "doExecute re s pos = Some (a0, a1)"
  shows "pos \<le> a0 \<and> a0 \<le> a1 \<and> a1 \<le> length s \<and> ends re s a0 \<noteq> [] \<and> a1 = hd (ends re s a0)"
proof -
  from assms obtain i where f: "find (\<lambda>i. ends re s i \<noteq> []) [pos ..< Suc (length s)] = Some i"
    and e: "a0 = i" "a1 = hd (ends re s i)"
    by (auto simp: doExecute_def split: option.splits)
  from f have i: "i \<in> set [pos ..< Suc (length s)]" "ends re s i \<noteq> []"
    by (rule find_in_set, rule find_holds)
  then have "hd (ends re s i) \<in> set (ends re s i)" by simp
  moreover from i have "pos \<le> i" "i \<le> length s" by (simp_all del: upt_Suc)
  ultimately show ?thesis using i ends_ge[of _ re s i] ends_le[of i s _ re] e by auto
qed

termination replaceAll_loop
proof (relation "measure (\<lambda>(re, src, repl, lastMatchEnd, searchPos, buf). Suc (length src) - searchPos)")
  show "wf (measure (\<lambda>(re, src, repl, lastMatchEnd, searchPos, buf). Suc (length src) - searchPos))"
    by simp
next
  fix re src and repl :: string and lastMatchEnd searchPos and buf :: string
    and x2 a0 a1 and buf1 buf2 :: string and width searchPos'
  assume le: "searchPos \<le> length src"
    and ex: "doExecute re src searchPos = Some x2" "(a0, a1) = x2"
    and w: "width = DecodeRuneInString_size (drop searchPos src)"
    and sp: "searchPos' = (if a1 < searchPos + width then searchPos + width
                           else if a1 < searchPos + 1 then searchPos + 1 else a1)"
  from ex doExecute_Some[of re src searchPos a0 a1] have "searchPos \<le> a1" by auto
  with sp have "searchPos < searchPos'" by (auto split: if_splits)
  with le show "((re, src, repl, a1, searchPos', buf2), (re, src, repl, lastMatchEnd, searchPos, buf))
        \<in> measure (\<lambda>(re, src, repl, lastMatchEnd, searchPos, buf). Suc (length src) - searchPos)"
    by auto
qed

subsection \<open>The matches of the pattern\<close>

lemma star_class_unfold:
  "ends (Star (Class cs)) s i =
     (if i < length s \<and> s ! i \<in> set cs then ends (Star (Class cs)) s (Suc i) else []) @ [i]"
  by (subst ends.simps(5)) auto

lemma star_class_ends:
  "ends (Star (Class cs)) (pre @ t) (length pre) \<noteq> [] \<and>
   hd (ends (Star (Class cs)) (pre @ t) (length pre)) = length pre + length (takeWhile (\<lambda>c. c \<in> set cs) t)"
proof (induction t arbitrary: pre)
  case Nil
  show ?case by (subst (1 2) star_class_unfold) simp
next
  case (Cons c t)
  from Cons[of "pre @ [c]"] show ?case by (subst (1 2) star_class_unfold) simp
qed

lemma re_ends_at:
  "ends reInsignificantWhitespace s i =
     (if i < length s \<and> s ! i = nl then ends (Star (Class perl_space)) s (Suc i) else []) @
     (if i = 0 \<or> (i \<le> length s \<and> s ! (i - 1) = nl) then ends (Star (Class perl_space)) s i else [])"
  by (auto simp add: reInsignificantWhitespace_def Suc_le_eq)

lemma is_space_eq: "(\<lambda>c. c \<in> set perl_space) = is_space"
  by (simp add: is_space_def fun_eq_iff)

lemma is_space_nl: "is_space nl"
  by (simp add: is_space_def perl_space_def)

text \<open>
  Where a match of the pattern can start: at a newline, at the start of the text, and
  right after a newline. \<open>pre\<close> is the text before the position and \<open>t\<close> the text
  from it on.
\<close>

definition starts :: "string \<Rightarrow> string \<Rightarrow> bool" where
  "starts pre t = ((t \<noteq> [] \<and> hd t = nl) \<or> pre = [] \<or> last pre = nl)"

lemma re_ends_split:
  "(ends reInsignificantWhitespace (pre @ t) (length pre) \<noteq> []) = starts pre t"
  "starts pre t \<Longrightarrow> hd (ends reInsignificantWhitespace (pre @ t) (length pre)) 
      = length pre + length (takeWhile is_space t)"
proof -
  have a: "(length pre < length (pre @ t) \<and> (pre @ t) ! length pre = nl) = (t \<noteq> [] \<and> hd t = nl)"
    by (cases t) auto
  have b: "(length pre = 0 \<or> (length pre \<le> length (pre @ t) \<and> (pre @ t) ! (length pre - 1) = nl))
           = (pre = [] \<or> last pre = nl)"
    by (cases pre rule: rev_cases) (auto simp: nth_append)
  note e = re_ends_at[of "pre @ t" "length pre", unfolded a b]
  have s0: "ends (Star (Class perl_space)) (pre @ t) (length pre) \<noteq> []"
    and h0: "hd (ends (Star (Class perl_space)) (pre @ t) (length pre)) = length pre + length (takeWhile is_space t)"
    using star_class_ends[of perl_space pre t] by (simp_all add: is_space_eq)
  have s1: "ends (Star (Class perl_space)) (pre @ t) (Suc (length pre)) \<noteq> []"
    and h1: "hd (ends (Star (Class perl_space)) (pre @ t) (Suc (length pre))) = length pre + length (takeWhile is_space t)"
    if "t \<noteq> []" "hd t = nl"
  proof -
    from that obtain t' where t: "t = nl # t'" by (cases t) auto
    from star_class_ends[of perl_space "pre @ [nl]" t'] t is_space_nl
    show "ends (Star (Class perl_space)) (pre @ t) (Suc (length pre)) \<noteq> []"
      and "hd (ends (Star (Class perl_space)) (pre @ t) (Suc (length pre))) = length pre + length (takeWhile is_space t)"
      by (simp_all add: is_space_eq)
  qed
  show "(ends reInsignificantWhitespace (pre @ t) (length pre) \<noteq> []) = starts pre t"
    unfolding e starts_def using s0 s1 by auto
  show "hd (ends reInsignificantWhitespace (pre @ t) (length pre)) = length pre + length (takeWhile is_space t)"
    if "starts pre t"
    using that unfolding e starts_def using s0 s1 h0 h1 by (auto simp: hd_append)
qed

lemma doExecute_unfold:
  "pos \<le> length s \<Longrightarrow> doExecute re s pos =
     (if ends re s pos \<noteq> [] then Some (pos, hd (ends re s pos)) else doExecute re s (Suc pos))"
  by (simp add: doExecute_def upt_conv_Cons del: upt_Suc)

lemma doExecute_past: "length s < pos \<Longrightarrow> doExecute re s pos = None"
  by (simp add: doExecute_def)

lemma search_at:
  "starts pre t \<Longrightarrow>
   doExecute reInsignificantWhitespace (pre @ t) (length pre) =
     Some (length pre, length pre + length (takeWhile is_space t))"
  using doExecute_unfold[of "length pre" "pre @ t" reInsignificantWhitespace]
  by (simp add: re_ends_split)

lemma search_skip:
  "nl \<notin> set u \<Longrightarrow> pre \<noteq> [] \<Longrightarrow> last pre \<noteq> nl \<Longrightarrow>
   doExecute reInsignificantWhitespace (pre @ u @ t) (length pre) =
   doExecute reInsignificantWhitespace (pre @ u @ t) (length pre + length u)"
proof (induction u arbitrary: pre)
  case Nil
  show ?case by simp
next
  case (Cons c u)
  have "\<not> starts pre ((c # u) @ t)" using Cons.prems by (auto simp add: starts_def)
  then have "doExecute reInsignificantWhitespace (pre @ (c # u) @ t) (length pre) =
             doExecute reInsignificantWhitespace (pre @ (c # u) @ t) (Suc (length pre))"
    using doExecute_unfold[of "length pre" "pre @ (c # u) @ t" reInsignificantWhitespace]
          re_ends_split(1)[of pre "(c # u) @ t"]
    by simp
  also have "\<dots> = doExecute reInsignificantWhitespace ((pre @ [c]) @ u @ t) (length (pre @ [c]))"
    by simp
  also have "\<dots> = doExecute reInsignificantWhitespace ((pre @ [c]) @ u @ t) (length (pre @ [c]) + length u)"
    using Cons.prems by (intro Cons.IH) auto
  finally show ?case by simp
qed

lemma search_none:
  assumes "nl \<notin> set t" "pre \<noteq> []" "last pre \<noteq> nl"
  shows "doExecute reInsignificantWhitespace (pre @ t) (length pre) = None"
proof -
  have "doExecute reInsignificantWhitespace (pre @ t @ []) (length pre) =
        doExecute reInsignificantWhitespace (pre @ t @ []) (length pre + length t)"
    using assms by (rule search_skip)
  moreover have "\<not> starts (pre @ t) []"
    using assms by (cases t rule: rev_cases) (auto simp: starts_def)
  then have "doExecute reInsignificantWhitespace ((pre @ t) @ []) (length (pre @ t)) = None"
    using doExecute_unfold[of "length (pre @ t)" "(pre @ t) @ []" reInsignificantWhitespace]
          re_ends_split(1)[of "pre @ t" "[]"] doExecute_past[of "pre @ t" "Suc (length (pre @ t))"]
    by simp
  ultimately show ?thesis by simp
qed

lemma search_found:
  assumes "nl \<notin> set u" "pre \<noteq> []" "last pre \<noteq> nl"
  shows "doExecute reInsignificantWhitespace (pre @ u @ nl # rest) (length pre) =
         Some (length pre + length u,
               length pre + length u + Suc (length (takeWhile is_space rest)))"
proof -
  have "doExecute reInsignificantWhitespace (pre @ u @ nl # rest) (length pre) =
        doExecute reInsignificantWhitespace (pre @ u @ nl # rest) (length pre + length u)"
    using assms by (rule search_skip)
  moreover have "starts (pre @ u) (nl # rest)" by (simp add: starts_def)
  from search_at[OF this]
  have "doExecute reInsignificantWhitespace (pre @ u @ nl # rest) (length pre + length u) =
        Some (length pre + length u,
               length pre + length u + Suc (length (takeWhile is_space rest)))"
    by (simp add: is_space_nl)
  ultimately show ?thesis by simp
qed

lemma size_bounds:
  "t \<noteq> [] \<Longrightarrow> 1 \<le> DecodeRuneInString_size t \<and> DecodeRuneInString_size t \<le> length t"
  by (cases t) (auto simp: Let_def Suc_le_eq)

lemma size_ascii: "of_char c < (0x80::nat) \<Longrightarrow> DecodeRuneInString_size (c # t) = 1"
  by (simp add: Let_def)

lemma is_space_ascii: "is_space c \<Longrightarrow> of_char c < (0x80::nat)"
  by (auto simp: is_space_def perl_space_def tab_def nl_def ff_def cr_def sp_def)

lemma between_nl: "byte_between lo hi nl = (lo \<le> 10 \<and> 10 \<le> hi)"
  by (simp add: byte_between_def nl_def)

lemma size_no_nl:
  assumes "c \<noteq> nl"
  shows "nl \<notin> set (take (DecodeRuneInString_size (c # t)) (c # t))"
proof -
  consider "t = []" | a where "t = [a]" | a b where "t = [a, b]" | a b d r where "t = a # b # d # r"
    by (metis list.exhaust)
  then show ?thesis
  proof cases
    case 1
    then show ?thesis using assms by (simp add: Let_def)
  next
    case 2
    then show ?thesis using assms
      by (auto simp: Let_def between_nl)
  next
    case 3
    then show ?thesis using assms
      by (auto simp: Let_def between_nl)
  next
    case 4
    then show ?thesis using assms
      by (auto simp: Let_def between_nl)
  qed
qed

declare replaceAll_loop.simps [simp del]

lemma loop_exit: "length s < p \<Longrightarrow> replaceAll_loop re s repl L p buf = buf @ drop L s"
  by (subst replaceAll_loop.simps) simp

lemma loop_none:
  "doExecute re s p = None \<Longrightarrow> replaceAll_loop re s repl L p buf = buf @ drop L s"
  by (subst replaceAll_loop.simps) simp

lemma loop_step:
  "p \<le> length s \<Longrightarrow> doExecute re s p = Some (a0, a1) \<Longrightarrow>
   replaceAll_loop re s [] L p buf =
   replaceAll_loop re s [] a1
     (if a1 < p + DecodeRuneInString_size (drop p s) then p + DecodeRuneInString_size (drop p s)
      else if a1 < p + 1 then p + 1 else a1)
     (buf @ slice s L a0)"
  by (subst replaceAll_loop.simps) (simp add: Let_def)

lemma strip_lines_no_nl: "nl \<notin> set u \<Longrightarrow> strip_lines P (u @ v) = u @ strip_lines P v"
  by (induction u) auto

lemma strip_lines_id: "nl \<notin> set u \<Longrightarrow> strip_lines P u = u"
  using strip_lines_no_nl[of u P "[]"] by simp

lemma nl_split: "nl \<in> set t \<Longrightarrow> \<exists>u rest. t = u @ nl # rest \<and> nl \<notin> set u"
  by (metis split_list_first)

lemma loop_inv:
  assumes "pre \<noteq> []" "L \<le> length pre" "last pre = nl \<Longrightarrow> t = [] \<or> \<not> is_space (hd t)"
  shows "replaceAll_loop reInsignificantWhitespace (pre @ t) [] L (length pre) buf =
         buf @ drop L pre @ strip_lines is_space t"
  using assms
proof (induction "length t" arbitrary: t pre L buf rule: less_induct)
  case less
  let ?re = reInsignificantWhitespace
  let ?n = "length pre"
  show ?case
  proof (cases "last pre = nl")
    case True
    with less.prems have ns: "t = [] \<or> \<not> is_space (hd t)" by simp
    then have tw: "takeWhile is_space t = []" by (cases t) auto
    have st: "starts pre t" using True by (simp add: starts_def)
    from search_at[OF st] tw have ex: "doExecute ?re (pre @ t) ?n = Some (?n, ?n)" by simp
    show ?thesis
    proof (cases t)
      case Nil
      then show ?thesis using loop_step[OF _ ex, of L buf] less.prems(2)
        by (simp add: slice_def loop_exit)
    next
      case (Cons c t')
      define w where "w = DecodeRuneInString_size t"
      have wb: "1 \<le> w" "w \<le> length t" using size_bounds[of t] Cons by (simp_all add: w_def)
      have cn: "c \<noteq> nl" using ns Cons is_space_nl by auto
      have nn: "nl \<notin> set (take w t)" using size_no_nl[OF cn, of t'] Cons by (simp add: w_def)
      have tk: "take w t \<noteq> []" using wb Cons by auto
      have step: "replaceAll_loop ?re (pre @ t) [] L ?n buf =
                  replaceAll_loop ?re (pre @ t) [] ?n (?n + w) (buf @ drop L pre)"
        using loop_step[OF _ ex, of L buf] wb less.prems(2) by (simp add: slice_def w_def)
      have "replaceAll_loop ?re ((pre @ take w t) @ drop w t) [] ?n (length (pre @ take w t)) (buf @ drop L pre)
           = (buf @ drop L pre) @ drop ?n (pre @ take w t) @ strip_lines is_space (drop w t)"
      proof (rule less.hyps)
        show "length (drop w t) < length t" using wb Cons by simp
        show "pre @ take w t \<noteq> []" using less.prems(1) by simp
        show "?n \<le> length (pre @ take w t)" by simp
        show "drop w t = [] \<or> \<not> is_space (hd (drop w t))" if "last (pre @ take w t) = nl"
        proof -
          have "last (take w t) \<in> set (take w t)" using tk by (rule last_in_set)
          with nn have "last (take w t) \<noteq> nl" by auto
          moreover from that tk have "last (take w t) = nl" by simp
          ultimately show ?thesis by simp
        qed
      qed
      moreover have "length (pre @ take w t) = ?n + w" using wb by simp
      moreover have "strip_lines is_space t = take w t @ strip_lines is_space (drop w t)"
        using strip_lines_no_nl[OF nn, of is_space "drop w t"] by simp
      ultimately show ?thesis using step by simp
    qed
  next
    case False
    show ?thesis
    proof (cases "nl \<in> set t")
      case False
      from search_none[OF False less.prems(1) \<open>last pre \<noteq> nl\<close>]
      show ?thesis using less.prems(2) by (simp add: loop_none strip_lines_id[OF False])
    next
      case True
      then obtain u rest where t: "t = u @ nl # rest" and nu: "nl \<notin> set u"
        using nl_split by blast
      define k where "k = length (takeWhile is_space rest)"
      define a0 where "a0 = ?n + length u"
      define a1 where "a1 = a0 + Suc k"
      have ex: "doExecute ?re (pre @ t) ?n = Some (a0, a1)"
        using search_found[OF nu less.prems(1) False, of rest] by (simp add: t a0_def a1_def k_def)
      define w where "w = DecodeRuneInString_size t"
      have w_le: "w \<le> Suc (length u)"
      proof (cases u)
        case Nil
        then show ?thesis by (simp add: w_def t size_ascii nl_def)
      next
        case (Cons c u')
        then have "c \<noteq> nl" using nu by auto
        from size_no_nl[OF this, of "u' @ nl # rest"]
        have "nl \<notin> set (take w (u @ nl # rest))" by (simp add: w_def t Cons)
        then show ?thesis
          by (cases "w \<le> length u") (auto simp: not_le_imp_less take_Cons' split: if_splits)
      qed
      have dw: "DecodeRuneInString_size (drop ?n (pre @ t)) = w" by (simp add: w_def)
      have np: "(if a1 < ?n + w then ?n + w else if a1 < ?n + 1 then ?n + 1 else a1) = a1"
        using w_le by (simp add: a1_def a0_def)
      have step: "replaceAll_loop ?re (pre @ t) [] L ?n buf =
                  replaceAll_loop ?re (pre @ t) [] a1 a1 (buf @ slice (pre @ t) L a0)"
        using loop_step[OF _ ex, of L buf] unfolding dw np by simp
      have sl: "slice (pre @ t) L a0 = drop L pre @ u"
        using less.prems(2) by (simp add: slice_def a0_def t)
      define pre' where "pre' = pre @ u @ nl # takeWhile is_space rest"
      have s': "pre @ t = pre' @ dropWhile is_space rest" by (simp add: pre'_def t)
      have l': "length pre' = a1" by (simp add: pre'_def a1_def a0_def k_def)
      have "replaceAll_loop ?re (pre' @ dropWhile is_space rest) [] (length pre') (length pre') (buf @ drop L pre @ u)
            = (buf @ drop L pre @ u) @ drop (length pre') pre' @ strip_lines is_space (dropWhile is_space rest)"
      proof (rule less.hyps)
        show "length (dropWhile is_space rest) < length t"
          using length_dropWhile_le[of is_space rest] by (simp add: t)
        show "pre' \<noteq> []" by (simp add: pre'_def)
        show "length pre' \<le> length pre'" by simp
        show "dropWhile is_space rest = [] \<or> \<not> is_space (hd (dropWhile is_space rest))"
          using hd_dropWhile[of is_space rest] by blast
      qed
      moreover have "strip_lines is_space t = u @ strip_lines is_space (dropWhile is_space rest)"
        using strip_lines_no_nl[OF nu, of is_space "nl # rest"] by (simp add: t)
      ultimately show ?thesis using step by (simp add: s' l' sl[unfolded s' l'])
    qed
  qed
qed

lemma Strip_eq_strip_lines: "Strip s = strip_lines is_space (dropWhile is_space s)"
proof -
  let ?re = reInsignificantWhitespace
  define k where "k = length (takeWhile is_space s)"
  have "starts [] s" by (simp add: starts_def)
  from search_at[OF this] have ex: "doExecute ?re s 0 = Some (0, k)" by (simp add: k_def)
  show ?thesis
  proof (cases s)
    case Nil
    with ex have "doExecute ?re [] 0 = Some (0, 0)" by (simp add: k_def)
    from loop_step[OF _ this, of 0 "[]"] show ?thesis
      by (simp add: Strip_def ReplaceAllString_def Nil slice_def loop_exit)
  next
    case (Cons c s')
    define w where "w = DecodeRuneInString_size s"
    have wb: "1 \<le> w" "w \<le> length s" using size_bounds[of s] Cons by (simp_all add: w_def)
    show ?thesis
    proof (cases "is_space c")
      case True
      then have w1: "w = 1" using size_ascii[OF is_space_ascii[OF True], of s'] by (simp add: w_def Cons)
      have k1: "1 \<le> k" using True by (simp add: k_def Cons)
      define pre where "pre = takeWhile is_space s"
      define t where "t = dropWhile is_space s"
      have s: "s = pre @ t" by (simp add: pre_def t_def)
      have lp: "length pre = k" by (simp add: pre_def k_def)
      have "replaceAll_loop ?re s [] 0 0 [] = replaceAll_loop ?re s [] k k []"
        using loop_step[OF _ ex, of 0 "[]"] w1 k1 by (simp add: slice_def w_def[symmetric])
      also have "\<dots> = replaceAll_loop ?re (pre @ t) [] (length pre) (length pre) []"
        by (simp add: s[symmetric] lp)
      also have "\<dots> = [] @ drop (length pre) pre @ strip_lines is_space t"
      proof (rule loop_inv)
        show "pre \<noteq> []" using True by (simp add: pre_def Cons)
        show "length pre \<le> length pre" by simp
        show "t = [] \<or> \<not> is_space (hd t)" using hd_dropWhile[of is_space s] by (auto simp: t_def)
      qed
      finally show ?thesis by (simp add: Strip_def ReplaceAllString_def t_def)
    next
      case False
      then have k0: "k = 0" by (simp add: k_def Cons)
      have cn: "c \<noteq> nl" using False is_space_nl by auto
      have nn: "nl \<notin> set (take w s)" using size_no_nl[OF cn, of s'] by (simp add: w_def Cons)
      have tk: "take w s \<noteq> []" using wb Cons by auto
      have "replaceAll_loop ?re s [] 0 0 [] = replaceAll_loop ?re s [] 0 w []"
        using loop_step[OF _ ex, of 0 "[]"] wb k0 by (simp add: slice_def w_def[symmetric])
      also have "\<dots> = replaceAll_loop ?re (take w s @ drop w s) [] 0 (length (take w s)) []"
        using wb by simp
      also have "\<dots> = [] @ drop 0 (take w s) @ strip_lines is_space (drop w s)"
      proof (rule loop_inv)
        show "take w s \<noteq> []" by (rule tk)
        show "0 \<le> length (take w s)" by simp
        show "drop w s = [] \<or> \<not> is_space (hd (drop w s))" if "last (take w s) = nl"
        proof -
          have "last (take w s) \<in> set (take w s)" using tk by (rule last_in_set)
          with nn have "last (take w s) \<noteq> nl" by auto
          with that show ?thesis by simp
        qed
      qed
      also have "\<dots> = strip_lines is_space (take w s @ drop w s)"
        using strip_lines_no_nl[OF nn, of is_space "drop w s"] by simp
      finally show ?thesis using False by (simp add: Strip_def ReplaceAllString_def Cons)
    qed
  qed
qed

lemma strip_lines_nl_free: "nl \<notin> set (strip_lines P t)"
  by (induction P t rule: strip_lines.induct) auto

lemma strip_lines_keeps:
  "P nl \<Longrightarrow> filter (\<lambda>c. \<not> P c) (strip_lines P t) = filter (\<lambda>c. \<not> P c) t"
proof (induction P t rule: strip_lines.induct)
  case (1 P)
  show ?case by simp
next
  case (2 P c t)
  have d: "filter (\<lambda>c. \<not> P c) (dropWhile P t) = filter (\<lambda>c. \<not> P c) t"
    by (induction t) auto
  from 2 show ?case by (auto simp: d)
qed

lemma filter_dropWhile_not: "filter (\<lambda>c. \<not> P c) (dropWhile P t) = filter (\<lambda>c. \<not> P c) t"
  by (induction t) auto

lemma Strip_no_leading: "dropWhile is_space (Strip s) = Strip s"
proof (cases "dropWhile is_space s")
  case Nil
  then have "Strip s = []" by (simp only: Strip_eq_strip_lines strip_lines.simps)
  then show ?thesis by simp
next
  case (Cons c t)
  then have "\<not> is_space c" using hd_dropWhile[of is_space s] by auto
  moreover from this have "c \<noteq> nl" using is_space_nl by auto
  ultimately show ?thesis by (simp add: Strip_eq_strip_lines Cons)
qed

text \<open>
  Only characters of the class \<^verbatim>\<open>\s\<close> are removed: whatever larger set of
  characters counts as whitespace, the text without them is the same before and after.
\<close>

lemma strip_lines_keeps_wider:
  assumes "\<And>c. S c \<Longrightarrow> P c" and "S nl"
  shows "filter (\<lambda>c. \<not> P c) (strip_lines S t) = filter (\<lambda>c. \<not> P c) t"
  using assms
proof (induction S t rule: strip_lines.induct)
  case (1 S)
  show ?case by simp
next
  case (2 S c t)
  have d: "filter (\<lambda>c. \<not> P c) (dropWhile S t) = filter (\<lambda>c. \<not> P c) t"
    using "2.prems"(1) by (induction t) auto
  show ?case
  proof (cases "c = nl")
    case True
    with "2.IH"(1)[OF True "2.prems"] "2.prems" d show ?thesis by simp
  next
    case False
    with "2.IH"(2)[OF False "2.prems"] show ?thesis by simp
  qed
qed

lemma Strip_preserves_wider:
  assumes "\<And>c. is_space c \<Longrightarrow> P c"
  shows "filter (\<lambda>c. \<not> P c) (Strip s) = filter (\<lambda>c. \<not> P c) s"
proof -
  have "filter (\<lambda>c. \<not> P c) (dropWhile is_space s) = filter (\<lambda>c. \<not> P c) s"
    using assms by (induction s) auto
  then show ?thesis
    using strip_lines_keeps_wider[of is_space P "dropWhile is_space s", OF assms is_space_nl]
    by (simp add: Strip_eq_strip_lines)
qed

text \<open>
  The example of the package documentation and of the specification, run through the
  loop itself.
\<close>

lemma Strip_example:
  "Strip (''  Some list:'' @ [nl, nl] @ ''  {{range .}}'' @ [nl] @ ''    # {{.}}'' @ [nl] @
          ''  {{end}}'' @ [nl])
   = ''Some list:{{range .}}# {{.}}{{end}}''"
  by code_simp

subsection \<open>The two readings of the whitespace after a newline\<close>

text \<open>
  On a text without carriage returns and form feeds the two readings agree: there the
  whitespace after a newline is spaces, tabs and further newlines, and each further
  newline is removed by the rule itself.
\<close>

lemma is_space_cases: "is_space c = (is_hspace c \<or> c = nl \<or> c = cr \<or> c = ff)"
  by (auto simp: is_space_def is_hspace_def perl_space_def)

lemma not_hspace_nl: "\<not> is_hspace nl"
  by (simp add: is_hspace_def nl_def sp_def tab_def)

lemma strip_lines_hspace_skip:
  "cr \<notin> set t \<Longrightarrow> ff \<notin> set t \<Longrightarrow>
   strip_lines is_hspace (dropWhile is_hspace t) = strip_lines is_hspace (dropWhile is_space t)"
proof (induction t)
  case Nil
  show ?case by simp
next
  case (Cons c t)
  then have ih: "strip_lines is_hspace (dropWhile is_hspace t) = strip_lines is_hspace (dropWhile is_space t)"
    and c: "c \<noteq> cr" "c \<noteq> ff" by auto
  show ?case
  proof (cases "is_hspace c")
    case True
    then have "is_space c" by (simp add: is_space_cases)
    with True show ?thesis using ih by simp
  next
    case False
    show ?thesis
    proof (cases "c = nl")
      case True
      then have "is_space c" by (simp add: is_space_cases)
      with True show ?thesis using ih not_hspace_nl by simp
    next
      case False
      with \<open>\<not> is_hspace c\<close> c have "\<not> is_space c" by (simp add: is_space_cases)
      with \<open>\<not> is_hspace c\<close> show ?thesis by simp
    qed
  qed
qed

lemma strip_lines_hspace_space:
  "cr \<notin> set t \<Longrightarrow> ff \<notin> set t \<Longrightarrow> strip_lines is_hspace t = strip_lines is_space t"
proof (induction "is_space" t rule: strip_lines.induct)
  case 1
  show ?case by simp
next
  case (2 c t)
  show ?case
  proof (cases "c = nl")
    case True
    have sub: "set (dropWhile is_space t) \<subseteq> set t" by (rule set_dropWhileD[THEN subsetI])
    with "2.prems" have "cr \<notin> set (dropWhile is_space t)" "ff \<notin> set (dropWhile is_space t)" by auto
    from "2.hyps"(1)[OF True this]
    have "strip_lines is_hspace (dropWhile is_space t) = strip_lines is_space (dropWhile is_space t)" .
    moreover have "strip_lines is_hspace (dropWhile is_hspace t) = strip_lines is_hspace (dropWhile is_space t)"
      using "2.prems" by (intro strip_lines_hspace_skip) auto
    ultimately show ?thesis using True by simp
  next
    case False
    with "2.hyps"(2)[OF False] "2.prems" show ?thesis by simp
  qed
qed

lemma Strip_spec_agrees:
  assumes "cr \<notin> set s" "ff \<notin> set s"
  shows "Strip s = Strip_spec s"
proof -
  have "set (dropWhile is_space s) \<subseteq> set s" by (rule set_dropWhileD[THEN subsetI])
  with assms have "cr \<notin> set (dropWhile is_space s)" "ff \<notin> set (dropWhile is_space s)" by auto
  then show ?thesis
    by (simp add: Strip_eq_strip_lines Strip_spec_def strip_lines_hspace_space)
qed

subsection \<open>The claims about \<open>Strip\<close>\<close>

text \<open>
  C1, as the specification states it: \<open>Strip\<close> removes the leading whitespace of the
  text and every newline together with the horizontal whitespace (spaces and tabs)
  that follows it. The code removes more: the pattern ends in \<^verbatim>\<open>\s*\<close>, and a
  carriage return after a newline goes as well, so on \<open>"a\n\rb"\<close> the code returns
  \<open>"ab"\<close> and the rule as stated \<open>"a\rb"\<close>.
\<close>

theorem Strip_spec_counterexample:
  "Strip [CHR ''a'', nl, cr, CHR ''b''] = ''ab'' \<and>
   Strip_spec [CHR ''a'', nl, cr, CHR ''b''] = [CHR ''a'', cr, CHR ''b''] \<and>
   Strip [CHR ''a'', nl, cr, CHR ''b''] \<noteq> Strip_spec [CHR ''a'', nl, cr, CHR ''b'']"
  by (simp add: Strip_eq_strip_lines Strip_spec_def is_space_def is_hspace_def perl_space_def
        nl_def cr_def tab_def ff_def sp_def)

text \<open>
  C1, amended: for every input string, \<open>Strip\<close> returns the string obtained by
  removing the leading whitespace at the very start of the string and every newline
  together with all the whitespace after it, where whitespace is the class
  \<^verbatim>\<open>\s\<close> of the pattern: space, tab, carriage return, form feed and further
  newlines.
\<close>

theorem Strip_is_Strip_lines: "Strip text = Strip_lines text"
  by (simp add: Strip_eq_strip_lines Strip_lines_def)

theorem Strip_is_Strip_lines_witness:
  "Strip (''  a:'' @ [nl, nl, tab] @ ''b '' @ [nl, cr] @ ''c'') =
     Strip_lines (''  a:'' @ [nl, nl, tab] @ ''b '' @ [nl, cr] @ ''c'') \<and>
   Strip_lines (''  a:'' @ [nl, nl, tab] @ ''b '' @ [nl, cr] @ ''c'') = ''a:b c''"
  using Strip_is_Strip_lines [of "''  a:'' @ [nl, nl, tab] @ ''b '' @ [nl, cr] @ ''c''"]
  by (simp add: Strip_lines_def is_space_def perl_space_def nl_def cr_def tab_def ff_def sp_def)

text \<open>
  C2: \<open>Strip\<close> is idempotent: for every string \<open>s\<close>, \<open>Strip (Strip s)\<close> equals
  \<open>Strip s\<close>.
\<close>

theorem Strip_idempotent: "Strip (Strip s) = Strip s"
proof -
  have "Strip (Strip s) = strip_lines is_space (dropWhile is_space (Strip s))"
    by (rule Strip_eq_strip_lines)
  also have "\<dots> = strip_lines is_space (Strip s)" by (simp only: Strip_no_leading)
  also have "\<dots> = Strip s"
    by (rule strip_lines_id) (simp add: Strip_eq_strip_lines strip_lines_nl_free)
  finally show ?thesis .
qed

theorem Strip_idempotent_witness:
  "Strip (Strip (''  a:'' @ [nl, nl, tab] @ ''b '' @ [nl, cr] @ ''c'')) =
   Strip (''  a:'' @ [nl, nl, tab] @ ''b '' @ [nl, cr] @ ''c'')"
  by (rule Strip_idempotent)

text \<open>
  C3: \<open>Strip\<close> preserves the non-whitespace content: for every string \<open>s\<close>,
  \<open>Strip s\<close> with all whitespace characters removed equals \<open>s\<close> with all whitespace
  characters removed.
\<close>

theorem Strip_preserves_content: "remove_whitespace (Strip s) = remove_whitespace s"
  unfolding remove_whitespace_def Strip_eq_strip_lines
  using strip_lines_keeps[of is_space, OF is_space_nl] by (simp add: filter_dropWhile_not)

theorem Strip_preserves_content_witness:
  "remove_whitespace (Strip (''  a:'' @ [nl, nl, tab] @ ''b '' @ [nl, cr] @ ''c'')) =
   remove_whitespace (''  a:'' @ [nl, nl, tab] @ ''b '' @ [nl, cr] @ ''c'')"
  by (rule Strip_preserves_content)

section \<open>The \<open>last\<close> function\<close>

lemma reflect_Len_has_length: "(\<exists>n. reflect_Len a = Return n) = has_length a"
  by (cases a rule: has_length.cases) simp_all

lemma SparseTemplate_registers_Last:
  "SparseTemplate eng name src =
     (case parse eng (add_funcs eng (new_common eng) Last) ''comment'' (Strip src) of
        (Some err, c) \<Rightarrow> Panic err
      | (None, c) \<Rightarrow> Return (Template \<lparr>tname = ''comment'', common = c\<rparr>))"
  by (simp add: SparseTemplate_def Strip_def Last_def template_Parse_def template_Funcs_def
        template_New_def split: prod.splits option.splits)

text \<open>
  C4: for every non-negative index \<open>x\<close> and every value \<open>a\<close> that has a length (an
  array, channel, map, slice or string, or a pointer to an array), \<open>Len\<close> returns a
  length \<open>n\<close> and the function registered under the name \<open>last\<close> returns true if and
  only if \<open>x\<close> equals \<open>n\<close> minus 1. That function is the entry \<open>last\<close> of the map \<open>Last\<close>,
  and \<open>SparseTemplate\<close> registers the same map with the template set before it parses.
\<close>

theorem last_true_iff:
  assumes "0 \<le> x" and "has_length a"
  shows "\<exists>n. reflect_Len a = Return n \<and> last_func x a = Return (x = int n - 1) \<and>
           Last ''last'' = Some last_func \<and>
           SparseTemplate eng name src =
             (case parse eng (add_funcs eng (new_common eng) Last) ''comment'' (Strip src) of
                (Some err, c) \<Rightarrow> Panic err
              | (None, c) \<Rightarrow> Return (Template \<lparr>tname = ''comment'', common = c\<rparr>))"
proof -
  from assms(2) obtain n where n: "reflect_Len a = Return n"
    using reflect_Len_has_length[of a] by blast
  then have "last_func x a = Return (x = int n - 1)" by (simp add: last_func_def)
  moreover have "Last ''last'' = Some last_func" by (simp add: Last_def)
  ultimately show ?thesis using n SparseTemplate_registers_Last by blast
qed

theorem last_true_iff_witness:
  "(0::int) \<le> 2 \<and>
   has_length (VPtr (VArray [VInt 7, VInt 8, VInt 9])) \<and>
   reflect_Len (VPtr (VArray [VInt 7, VInt 8, VInt 9])) = Return 3 \<and>
   last_func 2 (VPtr (VArray [VInt 7, VInt 8, VInt 9])) = Return True \<and>
   last_func 1 (VSlice [VInt 7, VInt 8, VInt 9]) = Return False \<and>
   last_func 0 (VString ''a'') = Return True \<and>
   last_func 4 (VNilPtr (Some 5)) = Return True \<and>
   Last ''last'' = Some last_func \<and>
   SparseTemplate names_engine ''mine'' [CHR '' '', CHR ''a'', nl, CHR '' '', CHR ''b''] =
     Return (Template \<lparr>tname = ''comment'', common = ([''last''], [(''comment'', ''ab'')])\<rparr>)"
proof -
  have s: "Strip [CHR '' '', CHR ''a'', nl, CHR '' '', CHR ''b''] = ''ab''"
    by (simp add: Strip_eq_strip_lines is_space_def perl_space_def nl_def cr_def tab_def ff_def
          sp_def)
  have l: "Last ''last'' = Some last_func" by (simp add: Last_def)
  from last_true_iff [of 2 "VPtr (VArray [VInt 7, VInt 8, VInt 9])" names_engine "''mine''"
                        "[CHR '' '', CHR ''a'', nl, CHR '' '', CHR ''b'']"]
       last_true_iff [of 1 "VSlice [VInt 7, VInt 8, VInt 9]" names_engine "''mine''" "[]"]
       last_true_iff [of 0 "VString ''a''" names_engine "''mine''" "[]"]
       last_true_iff [of 4 "VNilPtr (Some 5)" names_engine "''mine''" "[]"]
  show ?thesis by (auto simp: s l names_engine_def)
qed

text \<open>
  C5, as the specification states it: for a sequence of length 0, any call of \<open>last\<close>
  ends in an error. The code compares the index with \<open>0 - 1\<close> and returns: on the
  empty slice and the index 0 the answer is false, and nothing panics.
\<close>

theorem last_empty_counterexample:
  "reflect_Len (VSlice []) = Return 0 \<and> last_func 0 (VSlice []) = Return False"
  by (simp add: last_func_def)

text \<open>
  C5, amended: for a sequence of length 0 (any value whose \<open>Len\<close> is 0, a pointer to an
  empty array included), a call of \<open>last\<close> does not fail; it returns whether the index
  is \<open>-1\<close>, so it returns false for every non-negative index.
\<close>

theorem last_empty: "reflect_Len a = Return 0 \<Longrightarrow> last_func x a = Return (x = - 1)"
  by (simp add: last_func_def)

theorem last_empty_witness:
  "reflect_Len (VMap []) = Return 0 \<and>
   last_func 0 (VMap []) = Return False \<and>
   last_func 5 (VMap []) = Return False \<and>
   last_func (- 1) (VMap []) = Return True \<and>
   reflect_Len (VPtr (VArray [])) = Return 0 \<and>
   last_func 0 (VPtr (VArray [])) = Return False \<and>
   reflect_Len (VNilPtr (Some 0)) = Return 0 \<and>
   last_func 0 (VNilPtr (Some 0)) = Return False"
  using last_empty [of "VMap []" 0] last_empty [of "VMap []" 5] last_empty [of "VMap []" "- 1"]
        last_empty [of "VPtr (VArray [])" 0] last_empty [of "VNilPtr (Some 0)" 0]
  by simp

section \<open>Executing a template\<close>

lemma foldl_Buffer_Write: "foldl Buffer_Write buf writes = buf @ concat writes"
  by (induction writes arbitrary: buf) (simp_all add: Buffer_Write_def)

text \<open>
  C6: \<open>ExecuteToString\<close>, applied to a compiled template and a data value, returns
  what the engine wrote before it stopped together with the engine's error: the
  output produced before a failure is returned with the error, never discarded.
\<close>

theorem ExecuteToString_partial:
  assumes "execute eng (common tpl) (tname tpl) v = (writes, err)"
  shows "ExecuteToString eng tpl v = (concat writes, err)"
  using assms
  by (simp add: ExecuteToString_def template_Execute_def Buffer_String_def foldl_Buffer_Write)

theorem ExecuteToString_partial_witness:
  "execute toy_engine (common \<lparr>tname = ''t'', common = []\<rparr>)
      (tname \<lparr>tname = ''t'', common = []\<rparr>) VNil
     = ([''Hello, ''], Some ''nil data'') \<and>
   ExecuteToString toy_engine \<lparr>tname = ''t'', common = []\<rparr> VNil
     = (''Hello, '', Some ''nil data'')"
  using ExecuteToString_partial
          [of toy_engine "\<lparr>tname = ''t'', common = []\<rparr>" VNil "[''Hello, '']" "Some ''nil data''"]
  by (simp add: toy_engine_def)

text \<open>
  C8: in the variant with \<open>SparseTemplate\<close>, \<open>Execute\<close> on the wrapper panics with the
  error of a failed execution instead of returning it, and on success returns the
  rendered output as a string; \<open>Execute\<close> of the embedded engine template still
  returns the error as a value.
\<close>

theorem Template_Execute_panics:
  assumes "execute eng (common (embedded t)) (tname (embedded t)) v = (writes, err)"
  shows "Template_Execute eng t v =
           (case err of Some e \<Rightarrow> Panic e | None \<Rightarrow> Return (concat writes, None))
         \<and> template_Execute eng (embedded t) [] v = (concat writes, err)"
  using assms
  by (simp add: Template_Execute_def template_Execute_def Buffer_String_def foldl_Buffer_Write
           split: option.splits)

theorem Template_Execute_panics_witness:
  "execute toy_engine (common (embedded (Template \<lparr>tname = ''comment'', common = []\<rparr>)))
      (tname (embedded (Template \<lparr>tname = ''comment'', common = []\<rparr>))) VNil
     = ([''Hello, ''], Some ''nil data'') \<and>
   Template_Execute toy_engine (Template \<lparr>tname = ''comment'', common = []\<rparr>) VNil
     = Panic ''nil data'' \<and>
   template_Execute toy_engine (embedded (Template \<lparr>tname = ''comment'', common = []\<rparr>)) [] VNil
     = (''Hello, '', Some ''nil data'')"
  using Template_Execute_panics
          [of toy_engine "Template \<lparr>tname = ''comment'', common = []\<rparr>" VNil "[''Hello, '']"
              "Some ''nil data''"]
  by (simp add: toy_engine_def)

text \<open>
  C9: \<open>SparseTemplate\<close> ignores its name argument: for every name and text, the
  template it returns is the one created under the fixed name \<open>"comment"\<close>.
\<close>

theorem SparseTemplate_name:
  "SparseTemplate eng name text = SparseTemplate eng name' text \<and>
   (\<forall>t. SparseTemplate eng name text = Return t \<longrightarrow> tname (embedded t) = ''comment'')"
  by (auto simp add: SparseTemplate_def template_Parse_def template_Funcs_def template_New_def
        split: prod.splits option.splits)

theorem SparseTemplate_name_witness:
  "SparseTemplate toy_engine ''mine'' ('' a'' @ [nl] @ '' b'') =
     SparseTemplate toy_engine ''other'' ('' a'' @ [nl] @ '' b'') \<and>
   SparseTemplate toy_engine ''mine'' ('' a'' @ [nl] @ '' b'') =
     Return (Template \<lparr>tname = ''comment'', common = [(''comment'', ''ab'')]\<rparr>) \<and>
   tname (embedded (Template \<lparr>tname = ''comment'', common = [(''comment'', ''ab'')]\<rparr>))
     = ''comment''"
proof -
  have s: "ReplaceAllString reInsignificantWhitespace
             [CHR '' '', CHR ''a'', nl, CHR '' '', CHR ''b''] [] = ''ab''"
    using Strip_eq_strip_lines [of "[CHR '' '', CHR ''a'', nl, CHR '' '', CHR ''b'']"]
    by (simp add: Strip_def is_space_def perl_space_def nl_def cr_def tab_def ff_def sp_def)
  have r: "SparseTemplate toy_engine ''mine'' ('' a'' @ [nl] @ '' b'') =
     Return (Template \<lparr>tname = ''comment'', common = [(''comment'', ''ab'')]\<rparr>)"
    by (simp add: SparseTemplate_def s Let_def template_Parse_def template_Funcs_def
          template_New_def toy_engine_def)
  from SparseTemplate_name [of toy_engine "''mine''" "'' a'' @ [nl] @ '' b''" "''other''"] r
  show ?thesis by simp
qed

section \<open>\<open>ParseGlob\<close>\<close>

lemma ParseGlob_file_fails:
  "(fst (ParseGlob_file eng fs tpl f) \<noteq> None) = file_fails eng fs tpl f"
  by (auto simp: ParseGlob_file_def file_fails_def Let_def template_Parse_def template_New_def
        template_New_in_def template_Name_def split: sum.splits option.splits prod.splits)

lemma ParseGlob_loop_append:
  "ParseGlob_loop eng fs tpl (pre @ rest) =
     (case ParseGlob_loop eng fs tpl pre of
        (Some err, st) \<Rightarrow> (Some err, st)
      | (None, st) \<Rightarrow> ParseGlob_loop eng fs st rest)"
  by (induction pre arbitrary: tpl) (auto split: prod.splits option.splits)

lemma ParseGlob_loop_first_failure:
  assumes "ParseGlob_loop eng fs tpl pre = (None, st)"
      and "ParseGlob_file eng fs st f = (Some err, st')"
  shows "ParseGlob_loop eng fs tpl (pre @ f # post) = (Some err, st')"
  using assms by (simp add: ParseGlob_loop_append)

lemma ParseGlob_loop_error_split:
  "ParseGlob_loop eng fs tpl files = (Some err, st') \<Longrightarrow>
   \<exists>pre f post st. files = pre @ f # post \<and> ParseGlob_loop eng fs tpl pre = (None, st) \<and>
      ParseGlob_file eng fs st f = (Some err, st')"
proof (induction files arbitrary: tpl)
  case Nil
  then show ?case by simp
next
  case (Cons f files)
  obtain r st1 where b: "ParseGlob_file eng fs tpl f = (r, st1)" by (cases "ParseGlob_file eng fs tpl f")
  show ?case
  proof (cases r)
    case None
    with Cons.prems b have "ParseGlob_loop eng fs st1 files = (Some err, st')" by simp
    from Cons.IH[OF this] obtain pre g post st where
      s: "files = pre @ g # post" "ParseGlob_loop eng fs st1 pre = (None, st)"
         "ParseGlob_file eng fs st g = (Some err, st')" by blast
    have "f # files = (f # pre) @ g # post" using s(1) by simp
    moreover have "ParseGlob_loop eng fs tpl (f # pre) = (None, st)" using b None s(2) by simp
    ultimately show ?thesis using s(3) by blast
  next
    case (Some e)
    with Cons.prems b have "e = err" "st1 = st'" by simp_all
    with b Some have "ParseGlob_file eng fs tpl f = (Some err, st')" by simp
    moreover have "f # files = [] @ f # files" by simp
    moreover have "ParseGlob_loop eng fs tpl [] = (None, tpl)" by simp
    ultimately show ?thesis by blast
  qed
qed

lemma ParseGlob_file_ok_Some:
  "ParseGlob_file eng fs tpl f = (None, st) \<Longrightarrow> \<exists>t. st = Some t"
  by (auto simp: ParseGlob_file_def Let_def split: sum.splits prod.splits)

lemma ParseGlob_loop_ok_Some:
  "ParseGlob_loop eng fs tpl files = (None, st) \<Longrightarrow> files \<noteq> [] \<Longrightarrow> \<exists>t. st = Some t"
proof (induction files arbitrary: tpl)
  case Nil
  then show ?case by simp
next
  case (Cons f files)
  obtain r st1 where b: "ParseGlob_file eng fs tpl f = (r, st1)" by (cases "ParseGlob_file eng fs tpl f")
  with Cons.prems have r: "r = None" and l: "ParseGlob_loop eng fs st1 files = (None, st)"
    by (auto split: option.splits)
  from ParseGlob_file_ok_Some b r obtain t1 where t1: "st1 = Some t1" by blast
  show ?case
  proof (cases files)
    case Nil
    with l t1 show ?thesis by auto
  next
    case (Cons g gs)
    with Cons.IH[OF l] show ?thesis by simp
  qed
qed

lemma ParseGlob_glob_error:
  "Glob fs pattern = Inl e \<Longrightarrow> ParseGlob eng fs tpl pattern = ((None, Some (Err e)), tpl)"
  by (simp add: ParseGlob_def)

lemma ParseGlob_no_files:
  "Glob fs pattern = Inr [] \<Longrightarrow>
   ParseGlob eng fs tpl pattern =
     ((None, Some (Errorf ''template: pattern matches no files: %#q'' pattern)), tpl)"
  by (simp add: ParseGlob_def)

lemma ParseGlob_files:
  "Glob fs pattern = Inr files \<Longrightarrow> files \<noteq> [] \<Longrightarrow>
   ParseGlob eng fs tpl pattern =
     (case ParseGlob_loop eng fs tpl files of
        (Some err, st) \<Rightarrow> ((None, Some err), st)
      | (None, st) \<Rightarrow> ((st, None), st))"
  by (simp add: ParseGlob_def)

lemma ParseGlob_first_failure:
  assumes g: "Glob fs pattern = Inr (pre @ f # post)"
      and l: "ParseGlob_loop eng fs tpl pre = (None, st)"
      and b: "ParseGlob_file eng fs st f = (Some err, st')"
  shows "ParseGlob eng fs tpl pattern = ((None, Some err), st')"
  using ParseGlob_files[OF g, of eng tpl] ParseGlob_loop_first_failure[OF l b, of post]
  by simp

lemma file_fails_error:
  "file_fails eng fs st f \<Longrightarrow> \<exists>e st'. ParseGlob_file eng fs st f = (Some e, st')"
  using ParseGlob_file_fails[of eng fs st f] by (cases "ParseGlob_file eng fs st f") auto

lemma ParseGlob_result_shape:
  "fst (ParseGlob eng fs tpl pattern) = (res, err) \<Longrightarrow> (res = None) = (err \<noteq> None)"
proof (cases "Glob fs pattern")
  case (Inl e)
  assume "fst (ParseGlob eng fs tpl pattern) = (res, err)"
  with Inl show ?thesis by (auto simp: ParseGlob_glob_error)
next
  case (Inr files)
  assume a: "fst (ParseGlob eng fs tpl pattern) = (res, err)"
  show ?thesis
  proof (cases "files = []")
    case True
    with Inr a show ?thesis by (auto simp: ParseGlob_no_files)
  next
    case False
    obtain r st where l: "ParseGlob_loop eng fs tpl files = (r, st)"
      by (cases "ParseGlob_loop eng fs tpl files")
    show ?thesis
    proof (cases r)
      case None
      with ParseGlob_loop_ok_Some l False obtain t where "st = Some t" by blast
      with None l a show ?thesis by (auto simp: ParseGlob_files[OF Inr False])
    next
      case (Some e)
      with l a show ?thesis by (auto simp: ParseGlob_files[OF Inr False])
    qed
  qed
qed

lemma ParseGlob_error_iff:
  assumes a: "fst (ParseGlob eng fs tpl pattern) = (res, err)"
  shows "(err \<noteq> None) =
           (case Glob fs pattern of
              Inl e \<Rightarrow> True
            | Inr files \<Rightarrow>
                files = [] \<or>
                (\<exists>pre f post st. files = pre @ f # post \<and>
                    ParseGlob_loop eng fs tpl pre = (None, st) \<and> file_fails eng fs st f))"
proof (cases "Glob fs pattern")
  case (Inl e)
  with a show ?thesis by (auto simp: ParseGlob_glob_error)
next
  case (Inr files)
  show ?thesis
  proof (cases "files = []")
    case True
    with Inr a show ?thesis by (auto simp: ParseGlob_no_files)
  next
    case False
    obtain r st where l: "ParseGlob_loop eng fs tpl files = (r, st)"
      by (cases "ParseGlob_loop eng fs tpl files")
    have e: "err = r" using l a by (auto simp: ParseGlob_files[OF Inr False] split: option.splits)
    show ?thesis
    proof (cases r)
      case None
      have "\<not> (\<exists>pre f post st. files = pre @ f # post \<and>
                  ParseGlob_loop eng fs tpl pre = (None, st) \<and> file_fails eng fs st f)"
      proof
        assume "\<exists>pre f post st. files = pre @ f # post \<and>
                  ParseGlob_loop eng fs tpl pre = (None, st) \<and> file_fails eng fs st f"
        then obtain pre f post st0 where s: "files = pre @ f # post"
           "ParseGlob_loop eng fs tpl pre = (None, st0)" "file_fails eng fs st0 f" by blast
        from file_fails_error[OF s(3)] obtain e' st' where
          b: "ParseGlob_file eng fs st0 f = (Some e', st')" by blast
        from ParseGlob_loop_first_failure[OF s(2) b, of post] s(1) l None show False by simp
      qed
      with None e Inr False show ?thesis by simp
    next
      case (Some e')
      from ParseGlob_loop_error_split[OF l[unfolded Some]] obtain pre f post st0 where
        s: "files = pre @ f # post" "ParseGlob_loop eng fs tpl pre = (None, st0)"
           "ParseGlob_file eng fs st0 f = (Some e', st)" by blast
      from s(3) have "file_fails eng fs st0 f"
        using ParseGlob_file_fails[of eng fs st0 f] by simp
      with s(1,2) Some e Inr False show ?thesis by auto
    qed
  qed
qed

lemma toy_a:
  "ParseGlob_file toy_engine toy_fs (Some \<lparr>tname = ''root'', common = []\<rparr>) ''t/a.tpl'' =
     (None, Some \<lparr>tname = ''root'', common = [(''a.tpl'', ''xy'')]\<rparr>)"
proof -
  have s: "Strip [CHR '' '', CHR ''x'', nl, CHR '' '', CHR ''y''] = ''xy''"
    by (simp add: Strip_eq_strip_lines is_space_def perl_space_def nl_def cr_def tab_def ff_def sp_def)
  show ?thesis
    by (simp add: ParseGlob_file_def toy_fs_def toy_engine_def s Base_def Let_def
          template_Name_def template_New_in_def template_Parse_def)
qed

lemma toy_0:
  "ParseGlob_file toy_engine toy_fs st ''t/0.tpl'' = (Some (Err ''permission denied''), st)"
  by (simp add: ParseGlob_file_def toy_fs_def)


text \<open>
  C7, as the specification states it: \<open>ParseGlob\<close> returns an error exactly when the
  pattern matches zero files (and then the error names the pattern), when a matched
  file cannot be read, or when a stripped content fails to parse. The code has a
  fourth case: when \<open>filepath.Glob\<close> itself fails on a malformed pattern, that error
  is returned as it is; no file was matched, read or parsed, and the error is not
  the one that names the pattern.
\<close>

theorem ParseGlob_errors_counterexample:
  "fst (ParseGlob toy_engine toy_fs None ''['') = (None, Some (Err ''syntax error in pattern'')) \<and>
   Glob toy_fs ''['' = Inl ''syntax error in pattern'' \<and>
   Err ''syntax error in pattern'' \<noteq> Errorf ''template: pattern matches no files: %#q'' ''[''"
  by (simp add: ParseGlob_def toy_fs_def)

text \<open>
  C7, amended: \<open>ParseGlob\<close> returns a nil template exactly when it returns an error,
  and it returns an error exactly when \<open>filepath.Glob\<close> fails on the pattern (that
  error is returned as it is), when the pattern matches zero files (the error then
  names the pattern), or when some matched file, all files before it having been read
  and parsed, cannot be read or has a stripped content that fails to parse. In the
  first two cases nothing is read or parsed. In the last, the first error aborts the
  remaining files: the error returned is the one of the first such file, and the
  template set is left as the iteration on that file left it, whatever files come
  after it.
\<close>

theorem ParseGlob_errors:
  assumes "fst (ParseGlob eng fs tpl pattern) = (res, err)"
  shows "(res = None) = (err \<noteq> None) \<and>
         (err \<noteq> None) =
           (case Glob fs pattern of
              Inl e \<Rightarrow> True
            | Inr files \<Rightarrow>
                files = [] \<or>
                (\<exists>pre f post st. files = pre @ f # post \<and>
                    ParseGlob_loop eng fs tpl pre = (None, st) \<and> file_fails eng fs st f)) \<and>
         (\<forall>e. Glob fs pattern = Inl e \<longrightarrow>
            err = Some (Err e) \<and> snd (ParseGlob eng fs tpl pattern) = tpl) \<and>
         (Glob fs pattern = Inr [] \<longrightarrow>
            err = Some (Errorf ''template: pattern matches no files: %#q'' pattern) \<and>
            snd (ParseGlob eng fs tpl pattern) = tpl) \<and>
         (\<forall>pre f post st. Glob fs pattern = Inr (pre @ f # post) \<and>
            ParseGlob_loop eng fs tpl pre = (None, st) \<and> file_fails eng fs st f \<longrightarrow>
            err = fst (ParseGlob_file eng fs st f) \<and>
            snd (ParseGlob eng fs tpl pattern) = snd (ParseGlob_file eng fs st f))"
proof (intro conjI allI impI)
  show "(res = None) = (err \<noteq> None)" using assms by (rule ParseGlob_result_shape)
  show "(err \<noteq> None) =
           (case Glob fs pattern of
              Inl e \<Rightarrow> True
            | Inr files \<Rightarrow>
                files = [] \<or>
                (\<exists>pre f post st. files = pre @ f # post \<and>
                    ParseGlob_loop eng fs tpl pre = (None, st) \<and> file_fails eng fs st f))"
    using assms by (rule ParseGlob_error_iff)
  show "err = Some (Err e)" if "Glob fs pattern = Inl e" for e
    using assms ParseGlob_glob_error[OF that, of eng tpl] by simp
  show "snd (ParseGlob eng fs tpl pattern) = tpl" if "Glob fs pattern = Inl e" for e
    using ParseGlob_glob_error[OF that, of eng tpl] by simp
  show "err = Some (Errorf ''template: pattern matches no files: %#q'' pattern)"
    if "Glob fs pattern = Inr []"
    using assms ParseGlob_no_files[OF that, of eng tpl] by simp
  show "snd (ParseGlob eng fs tpl pattern) = tpl" if "Glob fs pattern = Inr []"
    using ParseGlob_no_files[OF that, of eng tpl] by simp
  fix pre f post st
  assume h: "Glob fs pattern = Inr (pre @ f # post) \<and>
        ParseGlob_loop eng fs tpl pre = (None, st) \<and> file_fails eng fs st f"
  then have g: "Glob fs pattern = Inr (pre @ f # post)"
    and l: "ParseGlob_loop eng fs tpl pre = (None, st)" by simp_all
  from h file_fails_error obtain e st' where b: "ParseGlob_file eng fs st f = (Some e, st')"
    by blast
  from ParseGlob_first_failure[OF g l b] assms b
  show "err = fst (ParseGlob_file eng fs st f)" by simp
  from ParseGlob_first_failure[OF g l b] b
  show "snd (ParseGlob eng fs tpl pattern) = snd (ParseGlob_file eng fs st f)" by simp
qed

theorem ParseGlob_errors_witness:
  "fst (ParseGlob toy_engine toy_fs (Some \<lparr>tname = ''root'', common = []\<rparr>) ''t/[0a].tpl'') =
     (None, Some (Err ''permission denied'')) \<and>
   Glob toy_fs ''t/[0a].tpl'' = Inr ([] @ ''t/0.tpl'' # [''t/a.tpl'']) \<and>
   ParseGlob_loop toy_engine toy_fs (Some \<lparr>tname = ''root'', common = []\<rparr>) [] =
     (None, Some \<lparr>tname = ''root'', common = []\<rparr>) \<and>
   file_fails toy_engine toy_fs (Some \<lparr>tname = ''root'', common = []\<rparr>) ''t/0.tpl'' \<and>
   ParseGlob_file toy_engine toy_fs (Some \<lparr>tname = ''root'', common = []\<rparr>) ''t/0.tpl''
     = (Some (Err ''permission denied''), Some \<lparr>tname = ''root'', common = []\<rparr>) \<and>
   snd (ParseGlob toy_engine toy_fs (Some \<lparr>tname = ''root'', common = []\<rparr>) ''t/[0a].tpl'') =
     Some \<lparr>tname = ''root'', common = []\<rparr> \<and>
   ParseGlob_file toy_engine toy_fs (Some \<lparr>tname = ''root'', common = []\<rparr>) ''t/a.tpl'' =
     (None, Some \<lparr>tname = ''root'', common = [(''a.tpl'', ''xy'')]\<rparr>)"
proof -
  have g: "Glob toy_fs ''t/[0a].tpl'' = Inr ([] @ ''t/0.tpl'' # [''t/a.tpl''])"
    by (simp add: toy_fs_def)
  have l: "ParseGlob_loop toy_engine toy_fs (Some \<lparr>tname = ''root'', common = []\<rparr>) [] =
     (None, Some \<lparr>tname = ''root'', common = []\<rparr>)"
    by simp
  note b = toy_0[of "Some \<lparr>tname = ''root'', common = []\<rparr>"]
  have r: "fst (ParseGlob toy_engine toy_fs (Some \<lparr>tname = ''root'', common = []\<rparr>)
             ''t/[0a].tpl'') = (None, Some (Err ''permission denied''))"
    using ParseGlob_first_failure[OF g l b] by simp
  have ff: "file_fails toy_engine toy_fs (Some \<lparr>tname = ''root'', common = []\<rparr>) ''t/0.tpl''"
    by (simp add: file_fails_def toy_fs_def)
  from ParseGlob_errors[OF r] g l ff have
    "snd (ParseGlob toy_engine toy_fs (Some \<lparr>tname = ''root'', common = []\<rparr>) ''t/[0a].tpl'') =
     snd (ParseGlob_file toy_engine toy_fs (Some \<lparr>tname = ''root'', common = []\<rparr>) ''t/0.tpl'')"
    by blast
  with g l ff b r toy_a show ?thesis by simp
qed



end
